theory Spec2Isabelle
  imports Main "HOL-Library.Word"
begin

section \<open>Data model of main.ts\<close>

text \<open>
  A JavaScript string is a sequence of UTF-16 code units.  The document text, and each
  line of it, is a list of 16-bit words.  \<open>js\<close> writes an ASCII literal as such a
  string.
\<close>

type_synonym code_unit = "16 word"
type_synonym jsstring = "code_unit list"

definition js :: "string \<Rightarrow> jsstring" where
  "js s = map of_char s"

text \<open>
  \<^verbatim>\<open>interface HeaderNode { line: number; level: number; parent?: HeaderNode; }\<close>

  The parent is set once, when the node is created, to a node created earlier, so the
  objects form finite parent chains: a datatype.  The parser creates one object per
  heading line (lemma \<open>parseHeaders_inj_line\<close> below), so on parsed nodes
  equality of values is the object identity that \<^verbatim>\<open>===\<close> tests.
\<close>

datatype HeaderNode = HeaderNode (line: nat) (level: nat) (parent: "HeaderNode option")

text \<open>A folding range of the host editor: the positions \<open>(from, to)\<close>.\<close>

type_synonym range = "nat \<times> nat"

text \<open>
  What the commands read from the editor: \<^verbatim>\<open>editor.getValue()\<close>,
  \<^verbatim>\<open>editor.getCursor().line\<close> (a zero-based line number), and the answer of
  CodeMirror's \<^verbatim>\<open>foldable(state, state.doc.line(l + 1).from)\<close> for the heading
  line \<open>l\<close> (\<open>None\<close> when it is null).
\<close>

record editor =
  getValue :: jsstring
  cursorLine :: nat
  foldable :: "nat \<Rightarrow> range option"

text \<open>
  What the commands do to the editor, in the order of the calls:
  \<^verbatim>\<open>cm.dispatch({ effects })\<close>; the assignment to \<^verbatim>\<open>cm.scrollDOM.scrollTop\<close> of the
  position of the start of a line, written \<open>scrollTo\<close> of that line; and
  \<^verbatim>\<open>editor.setCursor({ line, ch })\<close>.  A command that returns early has made no call.
\<close>

datatype effect = unfoldEffect range | foldEffect range

datatype action =
    dispatch "effect list"
  | scrollTo nat
  | setCursor nat nat

section \<open>The heading parser (lines 41 to 62, repeated at 123 to 142 and 215 to 234)\<close>

text \<open>\<^verbatim>\<open>editor.getValue().split("\n")\<close>: always at least one line.\<close>

fun split_lines :: "jsstring \<Rightarrow> jsstring list" where
  "split_lines [] = [[]]"
| "split_lines (c # cs) =
     (if c = 0x0A then [] # split_lines cs
      else (case split_lines cs of
              [] \<Rightarrow> [[c]]
            | l # ls \<Rightarrow> (c # l) # ls))"

text \<open>The character \<^verbatim>\<open>#\<close>, and the class \<^verbatim>\<open>\s\<close> of ECMAScript regular expressions.\<close>

definition isHash :: "code_unit \<Rightarrow> bool" where
  "isHash c = (c = 0x23)"

definition isWhiteSpace :: "code_unit \<Rightarrow> bool" where
  "isWhiteSpace c =
     (c = 0x09 \<or> c = 0x0A \<or> c = 0x0B \<or> c = 0x0C \<or> c = 0x0D \<or> c = 0x20 \<or> c = 0xA0
      \<or> c = 0x1680 \<or> (0x2000 \<le> c \<and> c \<le> 0x200A) \<or> c = 0x2028 \<or> c = 0x2029
      \<or> c = 0x202F \<or> c = 0x205F \<or> c = 0x3000 \<or> c = 0xFEFF)"

text \<open>
  \<^verbatim>\<open>lines[i].match(/^(#+)\s/)\<close>, giving \<^verbatim>\<open>match[1].length\<close>.  The group is greedy
  and a shorter group would be followed by \<^verbatim>\<open>#\<close>, which is no white space: the match
  succeeds exactly when the leading run of \<^verbatim>\<open>#\<close> is not empty and white space
  follows it.
\<close>

definition match_header :: "jsstring \<Rightarrow> nat option" where
  "match_header l =
     (let hashes = takeWhile isHash l; rest = dropWhile isHash l
      in case rest of
           [] \<Rightarrow> None
         | w # _ \<Rightarrow> if hashes \<noteq> [] \<and> isWhiteSpace w then Some (length hashes) else None)"

text \<open>
  \<^verbatim>\<open>for (let l = level - 1; l >= 1; l--) if (lastByLevel[l]) { node.parent = lastByLevel[l]; break; }\<close>
  The argument is the level the loop starts at.
\<close>

fun findParent :: "(nat \<rightharpoonup> HeaderNode) \<Rightarrow> nat \<Rightarrow> HeaderNode option" where
  "findParent lastByLevel 0 = None"
| "findParent lastByLevel (Suc l) =
     (case lastByLevel (Suc l) of
        Some n \<Rightarrow> Some n
      | None \<Rightarrow> findParent lastByLevel l)"

text \<open>The loop over the lines: \<open>i\<close> is the index of the first line still to read.\<close>

fun buildTree ::
  "jsstring list \<Rightarrow> nat \<Rightarrow> HeaderNode list \<Rightarrow> (nat \<rightharpoonup> HeaderNode) \<Rightarrow> HeaderNode list" where
  "buildTree [] i headers lastByLevel = headers"
| "buildTree (l # ls) i headers lastByLevel =
     (case match_header l of
        None \<Rightarrow> buildTree ls (Suc i) headers lastByLevel
      | Some lv \<Rightarrow>
          (let node = HeaderNode i lv (findParent lastByLevel (lv - 1))
           in buildTree ls (Suc i) (headers @ [node]) (lastByLevel(lv \<mapsto> node))))"

definition parseHeaders :: "jsstring \<Rightarrow> HeaderNode list" where
  "parseHeaders text = buildTree (split_lines text) 0 [] Map.empty"

section \<open>The heading locator (lines 64 to 73, 144 to 152, 236 to 244)\<close>

text \<open>
  \<^verbatim>\<open>for (let i = headers.length - 1; i >= 0; i--) if (headers[i].line <= cursorLine) ...\<close>
  The argument \<open>k\<close> counts the indices still to visit, so index \<open>k - 1\<close> is visited
  next.  The result is the index found (\<^verbatim>\<open>currentHeaderIndex\<close>); \<open>None\<close> is -1.
\<close>

fun locateFrom :: "HeaderNode list \<Rightarrow> nat \<Rightarrow> nat \<Rightarrow> nat option" where
  "locateFrom headers cursor 0 = None"
| "locateFrom headers cursor (Suc i) =
     (if line (headers ! i) \<le> cursor then Some i else locateFrom headers cursor i)"

definition currentHeaderIndex :: "HeaderNode list \<Rightarrow> nat \<Rightarrow> nat option" where
  "currentHeaderIndex headers cursor = locateFrom headers cursor (length headers)"

definition currentHeader :: "HeaderNode list \<Rightarrow> nat \<Rightarrow> HeaderNode option" where
  "currentHeader headers cursor = map_option (\<lambda>i. headers ! i) (currentHeaderIndex headers cursor)"

section \<open>Sibling navigation (lines 157 to 165 and 249 to 257)\<close>

function nextSiblingFrom :: "HeaderNode list \<Rightarrow> HeaderNode \<Rightarrow> nat \<Rightarrow> HeaderNode option" where
  "nextSiblingFrom headers cur i =
     (if i < length headers then
        (if level (headers ! i) = level cur \<and> parent (headers ! i) = parent cur
         then Some (headers ! i)
         else if level (headers ! i) \<le> level cur then None
         else nextSiblingFrom headers cur (i + 1))
      else None)"
  by pat_completeness auto
termination
  by (relation "measure (\<lambda>(headers, cur, i). length headers - i)") auto

declare nextSiblingFrom.simps [simp del]

text \<open>Downwards from index \<open>k - 1\<close>, as in the locator.\<close>

fun prevSiblingFrom :: "HeaderNode list \<Rightarrow> HeaderNode \<Rightarrow> nat \<Rightarrow> HeaderNode option" where
  "prevSiblingFrom headers cur 0 = None"
| "prevSiblingFrom headers cur (Suc i) =
     (if level (headers ! i) = level cur \<and> parent (headers ! i) = parent cur
      then Some (headers ! i)
      else if level (headers ! i) \<le> level cur then None
      else prevSiblingFrom headers cur i)"

definition nextSibling :: "HeaderNode list \<Rightarrow> nat \<Rightarrow> HeaderNode option" where
  "nextSibling headers idx = nextSiblingFrom headers (headers ! idx) (idx + 1)"

definition prevSibling :: "HeaderNode list \<Rightarrow> nat \<Rightarrow> HeaderNode option" where
  "prevSibling headers idx = prevSiblingFrom headers (headers ! idx) idx"

section \<open>The lines to unfold (lines 75 to 94, 169 to 187, 261 to 279)\<close>

text \<open>
  \<^verbatim>\<open>while (ancestor) { unfoldLines.add(ancestor.line); ancestor = ancestor.parent; }\<close>
\<close>

fun collectAncestors :: "HeaderNode \<Rightarrow> nat set \<Rightarrow> nat set" where
  "collectAncestors (HeaderNode ln lv p) unfoldLines =
     (case p of
        None \<Rightarrow> insert ln unfoldLines
      | Some a \<Rightarrow> collectAncestors a (insert ln unfoldLines))"

text \<open>
  \<^verbatim>\<open>collectDescendants(node)\<close> adds the node's line and calls itself on every element of
  \<open>headers\<close> whose parent is the node.  A child is a larger value than its parent, and
  it is an element of \<open>headers\<close>: the recursion ends.
\<close>

function collectDescendants :: "HeaderNode list \<Rightarrow> HeaderNode \<Rightarrow> nat set \<Rightarrow> nat set" where
  "collectDescendants headers node unfoldLines =
     fold (\<lambda>child acc. if parent child = Some node then collectDescendants headers child acc else acc)
       headers (insert (line node) unfoldLines)"
  by pat_completeness auto
termination
proof (relation "measure (\<lambda>(headers, node, unfoldLines). Suc (sum_list (map size headers)) - size node)")
  show "wf (measure (\<lambda>(headers, node, unfoldLines). Suc (sum_list (map size headers)) - size node))"
    by simp
next
  fix headers :: "HeaderNode list" and node child :: HeaderNode and unfoldLines acc :: "nat set"
  assume child: "child \<in> set headers" and par: "parent child = Some node"
  from par have "size node < size child"
    by (cases child) simp
  moreover from child have "size child \<le> sum_list (map size headers)"
    by (induction headers) auto
  ultimately show "((headers, child, acc), (headers, node, unfoldLines))
      \<in> measure (\<lambda>(headers, node, unfoldLines). Suc (sum_list (map size headers)) - size node)"
    by simp
qed

declare collectDescendants.simps [simp del]

definition unfoldLines :: "HeaderNode list \<Rightarrow> HeaderNode \<Rightarrow> nat set" where
  "unfoldLines headers focus = collectDescendants headers focus (collectAncestors focus {})"

section \<open>The commands\<close>

text \<open>
  Step 4: one effect for each heading that has a foldable range, in document order.
\<close>

fun createEffects :: "(nat \<Rightarrow> range option) \<Rightarrow> nat set \<Rightarrow> HeaderNode list \<Rightarrow> effect list" where
  "createEffects fr unfold [] = []"
| "createEffects fr unfold (header # rest) =
     (case fr (line header) of
        None \<Rightarrow> createEffects fr unfold rest
      | Some r \<Rightarrow>
          (if line header \<in> unfold then unfoldEffect r else foldEffect r)
            # createEffects fr unfold rest)"

definition focusOnCurrentHeader :: "'a editor_scheme \<Rightarrow> action list" where
  "focusOnCurrentHeader ed =
     (let headers = parseHeaders (getValue ed) in
      case currentHeader headers (cursorLine ed) of
        None \<Rightarrow> []
      | Some cur \<Rightarrow>
          [dispatch (createEffects (foldable ed) (unfoldLines headers cur) headers),
           scrollTo (line cur)])"

definition focusOnNextSibling :: "'a editor_scheme \<Rightarrow> action list" where
  "focusOnNextSibling ed =
     (let headers = parseHeaders (getValue ed) in
      case currentHeaderIndex headers (cursorLine ed) of
        None \<Rightarrow> []
      | Some idx \<Rightarrow>
          (case nextSibling headers idx of
             None \<Rightarrow> []
           | Some sib \<Rightarrow>
               [dispatch (createEffects (foldable ed) (unfoldLines headers sib) headers),
                scrollTo (line sib),
                setCursor (line sib) 0]))"

definition focusOnPreviousSibling :: "'a editor_scheme \<Rightarrow> action list" where
  "focusOnPreviousSibling ed =
     (let headers = parseHeaders (getValue ed) in
      case currentHeaderIndex headers (cursorLine ed) of
        None \<Rightarrow> []
      | Some idx \<Rightarrow>
          (case prevSibling headers idx of
             None \<Rightarrow> []
           | Some sib \<Rightarrow>
               [dispatch (createEffects (foldable ed) (unfoldLines headers sib) headers),
                scrollTo (line sib),
                setCursor (line sib) 0]))"

section \<open>The editor after a command\<close>

text \<open>
  What a later command reads after the calls of an earlier one.  Fold and unfold effects
  and scrolling change neither the document nor the cursor; \<^verbatim>\<open>editor.setCursor\<close>
  moves the cursor to the line given.
\<close>

fun applyAction :: "action \<Rightarrow> 'a editor_scheme \<Rightarrow> 'a editor_scheme" where
  "applyAction (dispatch effects) ed = ed"
| "applyAction (scrollTo l) ed = ed"
| "applyAction (setCursor l ch) ed = ed\<lparr>cursorLine := l\<rparr>"

definition runActions :: "action list \<Rightarrow> 'a editor_scheme \<Rightarrow> 'a editor_scheme" where
  "runActions acts ed = fold applyAction acts ed"

text \<open>
  The set \<^verbatim>\<open>unfoldLines\<close> that \<^verbatim>\<open>focusOnCurrentHeader\<close> has built at line 94;
  \<open>None\<close> when it has returned at line 73.
\<close>

definition focusUnfoldLines :: "'a editor_scheme \<Rightarrow> nat set option" where
  "focusUnfoldLines ed =
     (let headers = parseHeaders (getValue ed) in
      map_option (unfoldLines headers) (currentHeader headers (cursorLine ed)))"

section \<open>Notions of the specification\<close>

text \<open>
  A line matches the heading pattern: one or more marker characters followed by white
  space, anchored at the start of the line.
\<close>

definition heading_pattern :: "jsstring \<Rightarrow> bool" where
  "heading_pattern l \<longleftrightarrow>
     (\<exists>k w rest. 1 \<le> k \<and> l = replicate k 0x23 @ w # rest \<and> isWhiteSpace w)"

text \<open>The count of marker characters at the start of a line.\<close>

definition marker_count :: "jsstring \<Rightarrow> nat" where
  "marker_count l = length (takeWhile (\<lambda>c. c = 0x23) l)"

text \<open>A node followed by its ancestors: the parent links, up to a root.\<close>

fun chain :: "HeaderNode \<Rightarrow> HeaderNode list" where
  "chain (HeaderNode ln lv p) =
     HeaderNode ln lv p # (case p of None \<Rightarrow> [] | Some a \<Rightarrow> chain a)"

definition ancestors :: "HeaderNode \<Rightarrow> HeaderNode list" where
  "ancestors n = tl (chain n)"

text \<open>The descendants of a node: the nodes whose parent chain leads back to it.\<close>

definition descendants :: "HeaderNode list \<Rightarrow> HeaderNode \<Rightarrow> HeaderNode list" where
  "descendants headers n = filter (\<lambda>m. n \<in> set (ancestors m)) headers"

text \<open>The two nodes have the same level and the same parent.\<close>

definition exact_sibling :: "HeaderNode \<Rightarrow> HeaderNode \<Rightarrow> bool" where
  "exact_sibling cur c \<longleftrightarrow> level c = level cur \<and> parent c = parent cur"

section \<open>Invariants of the parser\<close>

text \<open>
  The invariant of the parser's loop when the lines before \<open>i\<close> are read: the nodes are
  those of the matching lines, in order; each level is the length of the match; an entry
  of \<open>lastByLevel\<close> is a node of that level; a parent is a node of a smaller level.
\<close>

definition tree_inv ::
  "jsstring list \<Rightarrow> nat \<Rightarrow> HeaderNode list \<Rightarrow> (nat \<rightharpoonup> HeaderNode) \<Rightarrow> bool" where
  "tree_inv lines i headers lastByLevel \<longleftrightarrow>
     map line headers = filter (\<lambda>j. match_header (lines ! j) \<noteq> None) [0..<i]
   \<and> (\<forall>n \<in> set headers. match_header (lines ! line n) = Some (level n))
   \<and> (\<forall>l n. lastByLevel l = Some n \<longrightarrow> n \<in> set headers \<and> level n = l)
   \<and> (\<forall>n \<in> set headers. \<forall>p. parent n = Some p \<longrightarrow> p \<in> set headers \<and> level p < level n)"

text \<open>
  What the parser guarantees of its result: every parent is a node of the sequence, of a
  strictly smaller level.
\<close>

definition parents_closed :: "HeaderNode list \<Rightarrow> bool" where
  "parents_closed headers \<longleftrightarrow>
     (\<forall>n \<in> set headers. \<forall>p. parent n = Some p \<longrightarrow> p \<in> set headers \<and> level p < level n)"

section \<open>Example documents\<close>

text \<open>Four headings, the last of which skips a level.\<close>

definition doc4 :: jsstring where
  "doc4 = js ''# A\<newline>## B\<newline># C\<newline>### D''"

text \<open>
  The outline of the specification's scenarios, after a line of preamble and with a line
  that starts with the marker but is no heading.
\<close>

definition docS :: jsstring where
  "docS = js ''intro\<newline># A\<newline>## B\<newline>#b\<newline>## C\<newline>### D\<newline>## E''"

text \<open>
  An editor holding that document, with the cursor on the heading of line 4.  Every
  heading but the last one has something to fold.
\<close>

definition edS :: editor where
  "edS = \<lparr>getValue = docS, cursorLine = 4,
           foldable = (\<lambda>l. if l = 6 then None else Some (l, l + 1))\<rparr>"

section \<open>The parser keeps its invariant\<close>

lemma findParent_Some:
  "findParent lastByLevel k = Some p \<Longrightarrow> \<exists>l. 1 \<le> l \<and> l \<le> k \<and> lastByLevel l = Some p"
proof (induction k)
  case 0
  then show ?case by simp
next
  case (Suc k)
  show ?case
  proof (cases "lastByLevel (Suc k)")
    case None
    with Suc.prems have "findParent lastByLevel k = Some p" by simp
    from Suc.IH [OF this] show ?thesis by (meson le_Suc_eq)
  next
    case (Some n)
    with Suc.prems have "lastByLevel (Suc k) = Some p" by simp
    then show ?thesis by (intro exI [of _ "Suc k"]) simp
  qed
qed

lemma match_header_pos: "match_header l = Some lv \<Longrightarrow> 1 \<le> lv"
  by (auto simp: match_header_def Let_def Suc_le_eq split: list.splits if_splits)

lemma tree_inv_step_None:
  assumes "tree_inv lines i headers lastByLevel" and "match_header (lines ! i) = None"
  shows "tree_inv lines (Suc i) headers lastByLevel"
  using assms by (simp add: tree_inv_def)

lemma tree_inv_step_Some:
  assumes inv: "tree_inv lines i headers lastByLevel" and m: "match_header (lines ! i) = Some lv"
  defines "node \<equiv> HeaderNode i lv (findParent lastByLevel (lv - 1))"
  shows "tree_inv lines (Suc i) (headers @ [node]) (lastByLevel(lv \<mapsto> node))"
proof -
  have 1: "map line (headers @ [node]) = filter (\<lambda>j. match_header (lines ! j) \<noteq> None) [0..<Suc i]"
    using inv m by (simp add: tree_inv_def node_def)
  have 2: "\<forall>n \<in> set (headers @ [node]). match_header (lines ! line n) = Some (level n)"
    using inv m by (simp add: tree_inv_def node_def)
  have 3: "\<forall>l n. (lastByLevel(lv \<mapsto> node)) l = Some n \<longrightarrow> n \<in> set (headers @ [node]) \<and> level n = l"
    using inv by (auto simp: tree_inv_def node_def)
  have 4: "p \<in> set headers \<and> level p < lv" if "findParent lastByLevel (lv - 1) = Some p" for p
  proof -
    from findParent_Some [OF that] obtain l where "1 \<le> l" "l \<le> lv - 1" "lastByLevel l = Some p"
      by blast
    with inv show ?thesis by (auto simp: tree_inv_def)
  qed
  have 5: "\<forall>n \<in> set (headers @ [node]). \<forall>p. parent n = Some p \<longrightarrow> p \<in> set (headers @ [node]) \<and> level p < level n"
    using inv 4 by (auto simp: tree_inv_def node_def)
  from 1 2 3 5 show ?thesis unfolding tree_inv_def by blast
qed

lemma buildTree_inv:
  assumes "tree_inv lines i headers lastByLevel" and "i \<le> length lines"
  shows "\<exists>last'. tree_inv lines (length lines) (buildTree (drop i lines) i headers lastByLevel) last'"
  using assms
proof (induction "length lines - i" arbitrary: i headers lastByLevel)
  case 0
  then show ?case by auto
next
  case (Suc d)
  then have lt: "i < length lines" by simp
  then have dr: "drop i lines = lines ! i # drop (Suc i) lines"
    by (simp add: Cons_nth_drop_Suc)
  from Suc.hyps(2) have d: "d = length lines - Suc i" by simp
  show ?case
  proof (cases "match_header (lines ! i)")
    case None
    from Suc.hyps(1) [OF d tree_inv_step_None [OF Suc.prems(1) None]] lt
    show ?thesis by (simp add: dr None)
  next
    case (Some lv)
    from Suc.hyps(1) [OF d tree_inv_step_Some [OF Suc.prems(1) Some]] lt
    show ?thesis by (simp add: dr Some Let_def)
  qed
qed

lemma parseHeaders_inv:
  "\<exists>last'. tree_inv (split_lines doc) (length (split_lines doc)) (parseHeaders doc) last'"
  using buildTree_inv [of "split_lines doc" 0 "[]" Map.empty]
  by (simp add: parseHeaders_def tree_inv_def)

section \<open>Ancestors and descendants\<close>

lemma chain_tl: "chain a = a # tl (chain a)"
  by (cases a) simp

lemma chain_ancestors: "chain n = n # ancestors n"
  using chain_tl [of n] by (simp add: ancestors_def)

lemma ancestors_Node:
  "ancestors (HeaderNode ln lv p) = (case p of None \<Rightarrow> [] | Some a \<Rightarrow> a # ancestors a)"
  using chain_tl [of "the p"] by (auto simp: ancestors_def split: option.splits)

lemma collectAncestors_eq:
  "collectAncestors n acc = acc \<union> line ` set (chain n)"
proof (induction n arbitrary: acc)
  case (HeaderNode ln lv p)
  show ?case
  proof (cases p)
    case None
    then show ?thesis by simp
  next
    case (Some a)
    then have "collectAncestors a (insert ln acc) = insert ln acc \<union> line ` set (chain a)"
      using HeaderNode.IH [of a] by simp
    with Some show ?thesis by auto
  qed
qed

lemma ancestors_level:
  assumes pc: "parents_closed headers"
  shows "n \<in> set headers \<Longrightarrow> a \<in> set (ancestors n) \<Longrightarrow> a \<in> set headers \<and> level a < level n"
proof (induction n)
  note cl = pc [unfolded parents_closed_def]
  case (HeaderNode ln lv p)
  show ?case
  proof (cases p)
    case None
    with HeaderNode.prems show ?thesis by (simp add: ancestors_Node)
  next
    case (Some q)
    with cl HeaderNode.prems(1) have q: "q \<in> set headers" "level q < lv" by force+
    from HeaderNode.prems(2) Some have "a = q \<or> a \<in> set (ancestors q)"
      by (simp add: ancestors_Node)
    then show ?thesis
    proof
      assume "a = q"
      with q show ?thesis by simp
    next
      assume "a \<in> set (ancestors q)"
      with HeaderNode.IH [of q] Some q have "a \<in> set headers \<and> level a < level q" by simp
      with q show ?thesis by simp
    qed
  qed
qed

lemma ancestors_trans:
  "b \<in> set (ancestors n) \<Longrightarrow> a \<in> set (ancestors b) \<Longrightarrow> a \<in> set (ancestors n)"
proof (induction n)
  case (HeaderNode ln lv p)
  show ?case
  proof (cases p)
    case None
    with HeaderNode.prems show ?thesis by (simp add: ancestors_Node)
  next
    case (Some q)
    from HeaderNode.prems(1) Some have "b = q \<or> b \<in> set (ancestors q)"
      by (simp add: ancestors_Node)
    then have "a \<in> set (ancestors q)"
      using HeaderNode.IH [of q] HeaderNode.prems(2) Some by auto
    with Some show ?thesis by (simp add: ancestors_Node)
  qed
qed

text \<open>A proper descendant is a child or a descendant of a child.\<close>

lemma ancestors_child:
  assumes pc: "parents_closed headers"
  shows "n \<in> set headers \<Longrightarrow> a \<in> set (ancestors n) \<Longrightarrow>
         \<exists>c \<in> set headers. parent c = Some a \<and> (n = c \<or> c \<in> set (ancestors n))"
proof (induction n)
  note cl = pc [unfolded parents_closed_def]
  case (HeaderNode ln lv p)
  show ?case
  proof (cases p)
    case None
    with HeaderNode.prems show ?thesis by (simp add: ancestors_Node)
  next
    case (Some q)
    with cl HeaderNode.prems(1) have q: "q \<in> set headers" by force
    from HeaderNode.prems(2) Some have "a = q \<or> a \<in> set (ancestors q)"
      by (simp add: ancestors_Node)
    then show ?thesis
    proof
      assume "a = q"
      with Some HeaderNode.prems(1) show ?thesis
        by (intro bexI [of _ "HeaderNode ln lv p"]) simp_all
    next
      assume "a \<in> set (ancestors q)"
      with HeaderNode.IH [of q] Some q obtain c where
        "c \<in> set headers" "parent c = Some a" "q = c \<or> c \<in> set (ancestors q)" by auto
      with Some show ?thesis by (auto simp: ancestors_Node)
    qed
  qed
qed


section \<open>What the invariant gives of the parsed sequence\<close>

lemma parseHeaders_lines:
  "map line (parseHeaders doc) =
     filter (\<lambda>j. match_header (split_lines doc ! j) \<noteq> None) [0..<length (split_lines doc)]"
  using parseHeaders_inv [of doc] by (auto simp: tree_inv_def)

lemma parseHeaders_level:
  "n \<in> set (parseHeaders doc) \<Longrightarrow> match_header (split_lines doc ! line n) = Some (level n)"
  using parseHeaders_inv [of doc] by (auto simp: tree_inv_def)

lemma parseHeaders_closed: "parents_closed (parseHeaders doc)"
  using parseHeaders_inv [of doc] unfolding tree_inv_def parents_closed_def by blast

lemma parseHeaders_sorted: "sorted_wrt (<) (map line (parseHeaders doc))"
  by (simp add: parseHeaders_lines sorted_wrt_filter)

lemma parseHeaders_distinct: "distinct (map line (parseHeaders doc))"
  by (simp add: parseHeaders_lines)

lemma parseHeaders_inj_line:
  assumes "m \<in> set (parseHeaders doc)" and "n \<in> set (parseHeaders doc)" and "line m = line n"
  shows "m = n"
  using parseHeaders_distinct [of doc] assms
  by (meson distinct_map inj_onD)

lemma parseHeaders_level_pos: "n \<in> set (parseHeaders doc) \<Longrightarrow> 1 \<le> level n"
  using parseHeaders_level match_header_pos by blast

text \<open>
  C7: for every parsed node, whenever its parent reference is present, the parent's level
  is strictly smaller than the node's level; in particular a heading at level 1 never has
  a parent.
\<close>

theorem C7_parent_level_smaller:
  assumes "n \<in> set (parseHeaders doc)"
  shows "(\<forall>p. parent n = Some p \<longrightarrow> level p < level n) \<and> (level n = 1 \<longrightarrow> parent n = None)"
proof -
  have cl: "\<forall>p. parent n = Some p \<longrightarrow> p \<in> set (parseHeaders doc) \<and> level p < level n"
    using parseHeaders_closed [of doc] assms unfolding parents_closed_def by blast
  have "parent n = None" if one: "level n = 1"
  proof (cases "parent n")
    case None
    then show ?thesis .
  next
    case (Some p)
    with cl have "p \<in> set (parseHeaders doc)" and "level p < level n" by simp_all
    with one parseHeaders_level_pos [of p doc] show ?thesis by simp
  qed
  with cl show ?thesis by blast
qed

lemma parse_doc4:
  "parseHeaders doc4 =
     [HeaderNode 0 1 None,
      HeaderNode 1 2 (Some (HeaderNode 0 1 None)),
      HeaderNode 2 1 None,
      HeaderNode 3 3 (Some (HeaderNode 1 2 (Some (HeaderNode 0 1 None))))]"
  by code_simp

theorem C7_witness:
  "parseHeaders doc4 ! 1 \<in> set (parseHeaders doc4)
   \<and> parent (parseHeaders doc4 ! 1) = Some (parseHeaders doc4 ! 0)
   \<and> level (parseHeaders doc4 ! 0) < level (parseHeaders doc4 ! 1)
   \<and> level (parseHeaders doc4 ! 0) = 1
   \<and> parent (parseHeaders doc4 ! 0) = None"
  using C7_parent_level_smaller [of "parseHeaders doc4 ! 1" doc4]
    C7_parent_level_smaller [of "parseHeaders doc4 ! 0" doc4]
  by (simp add: parse_doc4)

section \<open>The heading pattern\<close>

lemma isWhiteSpace_not_hash: "isWhiteSpace w \<Longrightarrow> \<not> isHash w"
  by (auto simp: isWhiteSpace_def isHash_def)

lemma takeWhile_isHash: "takeWhile isHash l = replicate (length (takeWhile isHash l)) 0x23"
proof -
  have "\<forall>c \<in> set (takeWhile isHash l). c = 0x23"
    using set_takeWhileD [of _ isHash l] by (auto simp: isHash_def)
  then show ?thesis
    by (metis replicate_length_same)
qed

lemma takeWhile_replicate_hash:
  "\<not> isHash w \<Longrightarrow> takeWhile isHash (replicate k 0x23 @ w # rest) = replicate k 0x23"
  by (induction k) (simp_all add: isHash_def)

lemma dropWhile_replicate_hash:
  "\<not> isHash w \<Longrightarrow> dropWhile isHash (replicate k 0x23 @ w # rest) = w # rest"
  by (induction k) (simp_all add: isHash_def)

lemma match_header_iff:
  "match_header l = Some k \<longleftrightarrow>
     1 \<le> k \<and> (\<exists>w rest. l = replicate k 0x23 @ w # rest \<and> isWhiteSpace w)"
proof
  assume m: "match_header l = Some k"
  then obtain w rest where dw: "dropWhile isHash l = w # rest"
    and k: "k = length (takeWhile isHash l)" and ne: "takeWhile isHash l \<noteq> []" and ws: "isWhiteSpace w"
    by (auto simp: match_header_def Let_def split: list.splits if_splits)
  have "l = takeWhile isHash l @ dropWhile isHash l" by simp
  also have "\<dots> = replicate k 0x23 @ w # rest"
    using takeWhile_isHash [of l] dw k by simp
  finally have "l = replicate k 0x23 @ w # rest" .
  moreover from ne k have "1 \<le> k" by (simp add: Suc_le_eq)
  ultimately show "1 \<le> k \<and> (\<exists>w rest. l = replicate k 0x23 @ w # rest \<and> isWhiteSpace w)"
    using ws by blast
next
  assume "1 \<le> k \<and> (\<exists>w rest. l = replicate k 0x23 @ w # rest \<and> isWhiteSpace w)"
  then obtain w rest where k: "1 \<le> k" and l: "l = replicate k 0x23 @ w # rest" and ws: "isWhiteSpace w"
    by blast
  from ws have nh: "\<not> isHash w" by (rule isWhiteSpace_not_hash)
  show "match_header l = Some k"
    using k ws by (simp add: match_header_def l takeWhile_replicate_hash [OF nh]
        dropWhile_replicate_hash [OF nh])
qed

lemma match_header_pattern: "match_header l \<noteq> None \<longleftrightarrow> heading_pattern l"
  unfolding heading_pattern_def using match_header_iff [of l] by (metis not_Some_eq)

lemma match_header_count: "match_header l = Some k \<Longrightarrow> k = marker_count l"
proof -
  have "isHash = (\<lambda>c. c = 0x23)"
    by (simp add: isHash_def fun_eq_iff)
  then have "marker_count l = length (takeWhile isHash l)"
    by (simp add: marker_count_def)
  moreover assume "match_header l = Some k"
  ultimately show ?thesis
    by (auto simp: match_header_def Let_def split: list.splits if_splits)
qed

text \<open>
  C5: for every document text, the parser emits one node per line that matches the
  heading pattern and no node for any other line; the emitted sequence is sorted by line
  strictly ascending, and each node's level is the count of marker characters at the
  start of its line.
\<close>

theorem C5_parser_emits_matching_lines:
  "map line (parseHeaders doc) =
     filter (\<lambda>i. heading_pattern (split_lines doc ! i)) [0..<length (split_lines doc)]
   \<and> sorted_wrt (<) (map line (parseHeaders doc))
   \<and> (\<forall>n \<in> set (parseHeaders doc). level n = marker_count (split_lines doc ! line n))"
proof -
  have "map line (parseHeaders doc) =
     filter (\<lambda>i. heading_pattern (split_lines doc ! i)) [0..<length (split_lines doc)]"
    by (simp only: parseHeaders_lines match_header_pattern)
  moreover have "level n = marker_count (split_lines doc ! line n)" if "n \<in> set (parseHeaders doc)" for n
    using parseHeaders_level [OF that] by (rule match_header_count)
  ultimately show ?thesis
    using parseHeaders_sorted [of doc] by blast
qed

lemma split_docS:
  "split_lines docS =
     [js ''intro'', js ''# A'', js ''## B'', js ''#b'', js ''## C'', js ''### D'', js ''## E'']"
  by code_simp

lemma parse_docS:
  "parseHeaders docS =
     [HeaderNode 1 1 None,
      HeaderNode 2 2 (Some (HeaderNode 1 1 None)),
      HeaderNode 4 2 (Some (HeaderNode 1 1 None)),
      HeaderNode 5 3 (Some (HeaderNode 4 2 (Some (HeaderNode 1 1 None)))),
      HeaderNode 6 2 (Some (HeaderNode 1 1 None))]"
  by code_simp

theorem C5_witness:
  "map line (parseHeaders docS) = [1, 2, 4, 5, 6]
   \<and> map level (parseHeaders docS) = [1, 2, 2, 3, 2]
   \<and> map marker_count (split_lines docS) = [0, 1, 2, 1, 2, 3, 2]
   \<and> filter (\<lambda>i. heading_pattern (split_lines docS ! i)) [0..<length (split_lines docS)]
       = [1, 2, 4, 5, 6]"
  using C5_parser_emits_matching_lines [of docS]
  by (simp add: parse_docS split_docS marker_count_def js_def)

section \<open>The locator\<close>

lemma locateFrom_None:
  "locateFrom headers cursor k = None \<longleftrightarrow> (\<forall>j<k. cursor < line (headers ! j))"
  by (induction k) (auto simp: less_Suc_eq not_le)

lemma locateFrom_Some:
  "locateFrom headers cursor k = Some i \<longleftrightarrow>
     i < k \<and> line (headers ! i) \<le> cursor \<and> (\<forall>j. i < j \<and> j < k \<longrightarrow> cursor < line (headers ! j))"
proof (induction k)
  case 0
  then show ?case by simp
next
  case (Suc k)
  show ?case
  proof (cases "line (headers ! k) \<le> cursor")
    case True
    have "i = k \<longleftrightarrow> i < Suc k \<and> line (headers ! i) \<le> cursor
        \<and> (\<forall>j. i < j \<and> j < Suc k \<longrightarrow> cursor < line (headers ! j))"
      using True by (metis less_Suc_eq less_irrefl not_le not_less_eq)
    with True show ?thesis by auto
  next
    case False
    have "(i < k \<and> line (headers ! i) \<le> cursor \<and> (\<forall>j. i < j \<and> j < k \<longrightarrow> cursor < line (headers ! j)))
      \<longleftrightarrow> (i < Suc k \<and> line (headers ! i) \<le> cursor
        \<and> (\<forall>j. i < j \<and> j < Suc k \<longrightarrow> cursor < line (headers ! j)))"
      using False by (metis less_Suc_eq not_le)
    with False Suc.IH show ?thesis by simp
  qed
qed

lemma sorted_lines_nth:
  assumes "sorted_wrt (<) (map line headers)" and "i < j" and "j < length headers"
  shows "line (headers ! i) < line (headers ! j)"
  using sorted_wrt_nth_less [OF assms(1), of i j] assms(2,3) by simp

text \<open>
  C4: for every parsed node sequence and every cursor line, the locator returns the node
  with the greatest line that is at most the cursor line, and returns none exactly when
  every heading's line exceeds the cursor line.
\<close>

theorem C4_locator_greatest_line_le_cursor:
  "(currentHeader (parseHeaders doc) cursor = None
      \<longleftrightarrow> (\<forall>m \<in> set (parseHeaders doc). cursor < line m))
   \<and> (\<forall>n. currentHeader (parseHeaders doc) cursor = Some n \<longrightarrow>
         n \<in> set (parseHeaders doc) \<and> line n \<le> cursor
         \<and> (\<forall>m \<in> set (parseHeaders doc). line m \<le> cursor \<longrightarrow> line m \<le> line n))"
proof -
  define hs where "hs = parseHeaders doc"
  have srt: "sorted_wrt (<) (map line hs)"
    unfolding hs_def by (rule parseHeaders_sorted)
  have none: "currentHeader hs cursor = None \<longleftrightarrow> (\<forall>m \<in> set hs. cursor < line m)"
    unfolding currentHeader_def currentHeaderIndex_def
    by (simp add: locateFrom_None) (metis in_set_conv_nth nth_mem)
  have some: "n \<in> set hs \<and> line n \<le> cursor
         \<and> (\<forall>m \<in> set hs. line m \<le> cursor \<longrightarrow> line m \<le> line n)"
    if "currentHeader hs cursor = Some n" for n
  proof -
    from that obtain i where i: "locateFrom hs cursor (length hs) = Some i" and n: "n = hs ! i"
      by (auto simp: currentHeader_def currentHeaderIndex_def)
    from i have il: "i < length hs" and le: "line (hs ! i) \<le> cursor"
      and after: "\<forall>j. i < j \<and> j < length hs \<longrightarrow> cursor < line (hs ! j)"
      by (simp_all add: locateFrom_Some)
    have "line m \<le> line n" if m: "m \<in> set hs" and mc: "line m \<le> cursor" for m
    proof -
      from m obtain j where j: "j < length hs" and mj: "m = hs ! j"
        by (auto simp: in_set_conv_nth)
      with after mc have "j \<le> i" by (metis not_le)
      then show ?thesis
        using sorted_lines_nth [OF srt, of j i] il n mj by (cases "j = i") auto
    qed
    with il le n show ?thesis by simp
  qed
  from none some show ?thesis unfolding hs_def by blast
qed

theorem C4_witness:
  "currentHeader (parseHeaders docS) 0 = None
   \<and> currentHeader (parseHeaders docS) 3 = Some (HeaderNode 2 2 (Some (HeaderNode 1 1 None)))
   \<and> list_all (\<lambda>m. 0 < line m) (parseHeaders docS)
   \<and> list_all (\<lambda>m. 3 < line m \<or> line m \<le> 2) (parseHeaders docS)"
  using C4_locator_greatest_line_le_cursor [of docS 0]
    C4_locator_greatest_line_le_cursor [of docS 3]
  by (simp add: parse_docS currentHeader_def currentHeaderIndex_def eval_nat_numeral)

section \<open>The sibling scans\<close>

lemma nextSiblingFrom_Some:
  "nextSiblingFrom headers cur i = Some s \<longleftrightarrow>
     (\<exists>j. i \<le> j \<and> j < length headers \<and> headers ! j = s \<and> exact_sibling cur s
        \<and> (\<forall>k. i \<le> k \<and> k < j \<longrightarrow> level cur < level (headers ! k)))"
proof (induction headers cur i rule: nextSiblingFrom.induct)
  case (1 headers cur i)
  let ?L = "\<lambda>i. nextSiblingFrom headers cur i = Some s"
  let ?R = "\<lambda>i. \<exists>j. i \<le> j \<and> j < length headers \<and> headers ! j = s \<and> exact_sibling cur s
        \<and> (\<forall>k. i \<le> k \<and> k < j \<longrightarrow> level cur < level (headers ! k))"
  show ?case
  proof (cases "i < length headers")
    case False
    then have "nextSiblingFrom headers cur i = None"
      by (subst nextSiblingFrom.simps) simp
    moreover have "\<not> ?R i"
    proof
      assume "?R i"
      then obtain j where "i \<le> j" and "j < length headers" by blast
      with False show False by simp
    qed
    ultimately show ?thesis by simp
  next
    case len: True
    show ?thesis
    proof (cases "exact_sibling cur (headers ! i)")
      case True
      then have L: "nextSiblingFrom headers cur i = Some (headers ! i)"
        using len by (subst nextSiblingFrom.simps) (simp add: exact_sibling_def)
      have "?R i \<longleftrightarrow> s = headers ! i"
      proof
        assume "?R i"
        then obtain j where j: "i \<le> j" "j < length headers" "headers ! j = s"
          and lv: "\<forall>k. i \<le> k \<and> k < j \<longrightarrow> level cur < level (headers ! k)" by blast
        have "j = i"
        proof (rule ccontr)
          assume "j \<noteq> i"
          with j lv have "level cur < level (headers ! i)" by simp
          with True show False by (simp add: exact_sibling_def)
        qed
        with j show "s = headers ! i" by simp
      next
        assume "s = headers ! i"
        with True len show "?R i" by (intro exI [of _ i]) simp
      qed
      with L show ?thesis by auto
    next
      case nsib: False
      show ?thesis
      proof (cases "level (headers ! i) \<le> level cur")
        case True
        then have L: "nextSiblingFrom headers cur i = None"
          using len nsib by (subst nextSiblingFrom.simps) (simp add: exact_sibling_def)
        have "\<not> ?R i"
        proof
          assume "?R i"
          then obtain j where j: "i \<le> j" "j < length headers" "headers ! j = s" "exact_sibling cur s"
            and lv: "\<forall>k. i \<le> k \<and> k < j \<longrightarrow> level cur < level (headers ! k)" by blast
          show False
          proof (cases "j = i")
            case True
            with j nsib show False by simp
          next
            case False
            with j lv have "level cur < level (headers ! i)" by simp
            with True show False by simp
          qed
        qed
        with L show ?thesis by simp
      next
        case deeper: False
        then have L: "nextSiblingFrom headers cur i = nextSiblingFrom headers cur (i + 1)"
          using len nsib by (subst nextSiblingFrom.simps) (simp add: exact_sibling_def)
        have IH: "?L (i + 1) \<longleftrightarrow> ?R (i + 1)"
          using "1.IH" len nsib deeper by (simp add: exact_sibling_def)
        have "?R (i + 1) \<longleftrightarrow> ?R i"
        proof
          assume "?R (i + 1)"
          then obtain j where j: "i + 1 \<le> j" "j < length headers" "headers ! j = s" "exact_sibling cur s"
            and lv: "\<forall>k. i + 1 \<le> k \<and> k < j \<longrightarrow> level cur < level (headers ! k)" by blast
          have "level cur < level (headers ! k)" if "i \<le> k \<and> k < j" for k
            using that lv deeper by (cases "k = i") auto
          with j show "?R i" by (intro exI [of _ j]) simp
        next
          assume "?R i"
          then obtain j where j: "i \<le> j" "j < length headers" "headers ! j = s" "exact_sibling cur s"
            and lv: "\<forall>k. i \<le> k \<and> k < j \<longrightarrow> level cur < level (headers ! k)" by blast
          from j nsib have "j \<noteq> i" by auto
          with j lv show "?R (i + 1)" by (intro exI [of _ j]) simp
        qed
        with L IH show ?thesis by simp
      qed
    qed
  qed
qed

lemma prevSiblingFrom_Some:
  "prevSiblingFrom headers cur i = Some s \<longleftrightarrow>
     (\<exists>j. j < i \<and> headers ! j = s \<and> exact_sibling cur s
        \<and> (\<forall>k. j < k \<and> k < i \<longrightarrow> level cur < level (headers ! k)))"
  (is "?L i \<longleftrightarrow> ?R i")
proof (induction i)
  case 0
  then show ?case by simp
next
  case (Suc i)
  show ?case
  proof (cases "exact_sibling cur (headers ! i)")
    case True
    then have L: "prevSiblingFrom headers cur (Suc i) = Some (headers ! i)"
      by (simp add: exact_sibling_def)
    have "?R (Suc i) \<longleftrightarrow> s = headers ! i"
    proof
      assume "?R (Suc i)"
      then obtain j where j: "j < Suc i" "headers ! j = s"
        and lv: "\<forall>k. j < k \<and> k < Suc i \<longrightarrow> level cur < level (headers ! k)" by blast
      have "j = i"
      proof (rule ccontr)
        assume "j \<noteq> i"
        with j lv have "level cur < level (headers ! i)" by simp
        with True show False by (simp add: exact_sibling_def)
      qed
      with j show "s = headers ! i" by simp
    next
      assume "s = headers ! i"
      with True show "?R (Suc i)" by (intro exI [of _ i]) auto
    qed
    with L show ?thesis by auto
  next
    case nsib: False
    show ?thesis
    proof (cases "level (headers ! i) \<le> level cur")
      case True
      then have L: "prevSiblingFrom headers cur (Suc i) = None"
        using nsib by (simp add: exact_sibling_def)
      have "\<not> ?R (Suc i)"
      proof
        assume "?R (Suc i)"
        then obtain j where j: "j < Suc i" "headers ! j = s" "exact_sibling cur s"
          and lv: "\<forall>k. j < k \<and> k < Suc i \<longrightarrow> level cur < level (headers ! k)" by blast
        show False
        proof (cases "j = i")
          case True
          with j nsib show False by simp
        next
          case False
          with j lv have "level cur < level (headers ! i)" by simp
          with True show False by simp
        qed
      qed
      with L show ?thesis by simp
    next
      case deeper: False
      then have L: "prevSiblingFrom headers cur (Suc i) = prevSiblingFrom headers cur i"
        using nsib by (simp add: exact_sibling_def)
      have "?R i \<longleftrightarrow> ?R (Suc i)"
      proof
        assume "?R i"
        then obtain j where j: "j < i" "headers ! j = s" "exact_sibling cur s"
          and lv: "\<forall>k. j < k \<and> k < i \<longrightarrow> level cur < level (headers ! k)" by blast
        have "level cur < level (headers ! k)" if "j < k \<and> k < Suc i" for k
          using that lv deeper by (cases "k = i") auto
        with j show "?R (Suc i)" by (intro exI [of _ j]) simp
      next
        assume "?R (Suc i)"
        then obtain j where j: "j < Suc i" "headers ! j = s" "exact_sibling cur s"
          and lv: "\<forall>k. j < k \<and> k < Suc i \<longrightarrow> level cur < level (headers ! k)" by blast
        from j nsib have "j \<noteq> i" by auto
        with j lv show "?R i" by (intro exI [of _ j]) simp
      qed
      with L Suc.IH show ?thesis by simp
    qed
  qed
qed


text \<open>
  C3: sibling navigation, scanning one position at a time from the current node in the
  chosen direction, returns the first candidate whose level equals the current node's
  level and whose parent equals the current node's parent; it stops with no result as
  soon as it meets a node whose level is at most the current node's level and that is not
  such an exact sibling.  So it never selects a node with a different parent and never
  skips over a node of equal or lower level.
\<close>

theorem C3_sibling_scan:
  assumes "idx < length headers"
  shows
    "(nextSibling headers idx = Some s \<longleftrightarrow>
        (\<exists>j. idx < j \<and> j < length headers \<and> headers ! j = s
           \<and> exact_sibling (headers ! idx) s
           \<and> (\<forall>k. idx < k \<and> k < j \<longrightarrow> level (headers ! idx) < level (headers ! k))))
     \<and> (prevSibling headers idx = Some s \<longleftrightarrow>
        (\<exists>j. j < idx \<and> headers ! j = s
           \<and> exact_sibling (headers ! idx) s
           \<and> (\<forall>k. j < k \<and> k < idx \<longrightarrow> level (headers ! idx) < level (headers ! k))))
     \<and> (\<forall>b. idx < b \<and> b < length headers
           \<and> level (headers ! b) \<le> level (headers ! idx)
           \<and> \<not> exact_sibling (headers ! idx) (headers ! b)
           \<and> (\<forall>k. idx < k \<and> k < b \<longrightarrow> level (headers ! idx) < level (headers ! k))
           \<longrightarrow> nextSibling headers idx = None)
     \<and> (\<forall>b. b < idx
           \<and> level (headers ! b) \<le> level (headers ! idx)
           \<and> \<not> exact_sibling (headers ! idx) (headers ! b)
           \<and> (\<forall>k. b < k \<and> k < idx \<longrightarrow> level (headers ! idx) < level (headers ! k))
           \<longrightarrow> prevSibling headers idx = None)"
proof -
  define cur where "cur = headers ! idx"
  have nxt: "nextSibling headers idx = Some t \<longleftrightarrow>
        (\<exists>j. idx < j \<and> j < length headers \<and> headers ! j = t \<and> exact_sibling cur t
           \<and> (\<forall>k. idx < k \<and> k < j \<longrightarrow> level cur < level (headers ! k)))" for t
    unfolding nextSibling_def cur_def nextSiblingFrom_Some by (simp add: Suc_le_eq)
  have prv: "prevSibling headers idx = Some t \<longleftrightarrow>
        (\<exists>j. j < idx \<and> headers ! j = t \<and> exact_sibling cur t
           \<and> (\<forall>k. j < k \<and> k < idx \<longrightarrow> level cur < level (headers ! k)))" for t
    unfolding prevSibling_def cur_def prevSiblingFrom_Some by simp
  have stop_next: "nextSibling headers idx = None"
    if b: "idx < b" "b < length headers" "level (headers ! b) \<le> level cur"
      "\<not> exact_sibling cur (headers ! b)"
      and before: "\<forall>k. idx < k \<and> k < b \<longrightarrow> level cur < level (headers ! k)" for b
  proof (rule ccontr)
    assume "nextSibling headers idx \<noteq> None"
    then obtain t where "nextSibling headers idx = Some t" by auto
    with nxt obtain j where j: "idx < j" "headers ! j = t" "exact_sibling cur t"
      and lv: "\<forall>k. idx < k \<and> k < j \<longrightarrow> level cur < level (headers ! k)" by blast
    consider "j < b" | "j = b" | "b < j" by linarith
    then show False
    proof cases
      case 1
      with before j have "level cur < level t" by auto
      with j show False by (simp add: exact_sibling_def)
    next
      case 2
      with j b show False by simp
    next
      case 3
      with lv b have "level cur < level (headers ! b)" by simp
      with b show False by simp
    qed
  qed
  have stop_prev: "prevSibling headers idx = None"
    if b: "b < idx" "level (headers ! b) \<le> level cur" "\<not> exact_sibling cur (headers ! b)"
      and after: "\<forall>k. b < k \<and> k < idx \<longrightarrow> level cur < level (headers ! k)" for b
  proof (rule ccontr)
    assume "prevSibling headers idx \<noteq> None"
    then obtain t where "prevSibling headers idx = Some t" by auto
    with prv obtain j where j: "j < idx" "headers ! j = t" "exact_sibling cur t"
      and lv: "\<forall>k. j < k \<and> k < idx \<longrightarrow> level cur < level (headers ! k)" by blast
    consider "b < j" | "j = b" | "j < b" by linarith
    then show False
    proof cases
      case 1
      with after j have "level cur < level t" by auto
      with j show False by (simp add: exact_sibling_def)
    next
      case 2
      with j b show False by simp
    next
      case 3
      with lv b have "level cur < level (headers ! b)" by simp
      with b show False by simp
    qed
  qed
  from nxt [of s] prv [of s] stop_next stop_prev show ?thesis
    unfolding cur_def by blast
qed

lemma nextSibling_docS: "nextSibling (parseHeaders docS) 2 = Some (parseHeaders docS ! 4)"
  by code_simp

lemma prevSibling_docS: "prevSibling (parseHeaders docS) 4 = Some (parseHeaders docS ! 2)"
  by code_simp

theorem C3_witness:
  "2 < length (parseHeaders docS) \<and> 4 < length (parseHeaders docS)
   \<and> nextSibling (parseHeaders docS) 2 = Some (parseHeaders docS ! 4)
   \<and> prevSibling (parseHeaders docS) 4 = Some (parseHeaders docS ! 2)
   \<and> exact_sibling (parseHeaders docS ! 2) (parseHeaders docS ! 4)
   \<and> nextSibling (parseHeaders docS) 3 = None
   \<and> prevSibling (parseHeaders docS) 3 = None"
proof -
  have l2: "2 < length (parseHeaders docS)" and l4: "4 < length (parseHeaders docS)"
    and l3: "3 < length (parseHeaders docS)"
    by (simp_all add: parse_docS)
  from C3_sibling_scan [OF l2, of "parseHeaders docS ! 4"] nextSibling_docS
  have sib: "exact_sibling (parseHeaders docS ! 2) (parseHeaders docS ! 4)"
    by blast
  have stop: "level (parseHeaders docS ! 4) \<le> level (parseHeaders docS ! 3)"
    "\<not> exact_sibling (parseHeaders docS ! 3) (parseHeaders docS ! 4)"
    "level (parseHeaders docS ! 2) \<le> level (parseHeaders docS ! 3)"
    "\<not> exact_sibling (parseHeaders docS ! 3) (parseHeaders docS ! 2)"
    by (simp_all add: parse_docS exact_sibling_def)
  note c3 = C3_sibling_scan [OF l3, of "parseHeaders docS ! 4"]
  have "3 < (4::nat) \<and> 4 < length (parseHeaders docS)
      \<and> level (parseHeaders docS ! 4) \<le> level (parseHeaders docS ! 3)
      \<and> \<not> exact_sibling (parseHeaders docS ! 3) (parseHeaders docS ! 4)
      \<and> (\<forall>k. 3 < k \<and> k < 4 \<longrightarrow> level (parseHeaders docS ! 3) < level (parseHeaders docS ! k))"
    using stop l4 by auto
  with c3 have n3: "nextSibling (parseHeaders docS) 3 = None" by blast
  have "(2::nat) < 3
      \<and> level (parseHeaders docS ! 2) \<le> level (parseHeaders docS ! 3)
      \<and> \<not> exact_sibling (parseHeaders docS ! 3) (parseHeaders docS ! 2)
      \<and> (\<forall>k. 2 < k \<and> k < 3 \<longrightarrow> level (parseHeaders docS ! 3) < level (parseHeaders docS ! k))"
    using stop by auto
  with c3 have p3: "prevSibling (parseHeaders docS) 3 = None" by blast
  from l2 l4 sib nextSibling_docS prevSibling_docS n3 p3 show ?thesis by simp
qed

section \<open>The unfold set\<close>

lemma parent_in_ancestors: "parent c = Some a \<Longrightarrow> a \<in> set (ancestors c)"
  by (cases c) (simp add: ancestors_Node)

lemma descendants_children:
  assumes pc: "parents_closed headers"
  shows "set (descendants headers node) =
     (\<Union>c \<in> {c \<in> set headers. parent c = Some node}. insert c (set (descendants headers c)))"
proof (intro equalityI subsetI)
  fix m
  assume "m \<in> set (descendants headers node)"
  then have m: "m \<in> set headers" and anc: "node \<in> set (ancestors m)"
    by (simp_all add: descendants_def)
  from ancestors_child [OF pc m anc] obtain c where
    c: "c \<in> set headers" "parent c = Some node" and mc: "m = c \<or> c \<in> set (ancestors m)"
    by blast
  from mc m have "m \<in> insert c (set (descendants headers c))"
    by (auto simp: descendants_def)
  with c show "m \<in> (\<Union>c \<in> {c \<in> set headers. parent c = Some node}. insert c (set (descendants headers c)))"
    by blast
next
  fix m
  assume "m \<in> (\<Union>c \<in> {c \<in> set headers. parent c = Some node}. insert c (set (descendants headers c)))"
  then obtain c where c: "c \<in> set headers" "parent c = Some node"
    and mc: "m = c \<or> m \<in> set (descendants headers c)" by blast
  from c have nc: "node \<in> set (ancestors c)" by (simp add: parent_in_ancestors)
  from mc show "m \<in> set (descendants headers node)"
  proof
    assume "m = c"
    with c nc show ?thesis by (simp add: descendants_def)
  next
    assume "m \<in> set (descendants headers c)"
    then have "m \<in> set headers" and "c \<in> set (ancestors m)" by (simp_all add: descendants_def)
    with nc show ?thesis by (simp add: descendants_def ancestors_trans [of c m node])
  qed
qed

lemma fold_children:
  assumes "\<And>c a. c \<in> set xs \<Longrightarrow> parent c = Some node \<Longrightarrow> f c a = a \<union> D c"
  shows "fold (\<lambda>child acc. if parent child = Some node then f child acc else acc) xs acc =
     acc \<union> (\<Union>c \<in> {c \<in> set xs. parent c = Some node}. D c)"
  using assms
proof (induction xs arbitrary: acc)
  case Nil
  then show ?case by simp
next
  case (Cons x xs)
  have IH: "fold (\<lambda>child acc. if parent child = Some node then f child acc else acc) xs a =
     a \<union> (\<Union>c \<in> {c \<in> set xs. parent c = Some node}. D c)" for a
    using Cons.IH Cons.prems by simp
  show ?case
  proof (cases "parent x = Some node")
    case True
    with Cons.prems have "f x acc = acc \<union> D x" by simp
    with True IH [of "acc \<union> D x"] show ?thesis by auto
  next
    case False
    with IH [of acc] show ?thesis by auto
  qed
qed

lemma collectDescendants_eq:
  assumes pc: "parents_closed headers"
  shows "collectDescendants headers node acc =
     acc \<union> insert (line node) (line ` set (descendants headers node))"
  using pc
proof (induction headers node acc rule: collectDescendants.induct)
  case (1 headers node acc)
  note pc = "1.prems"
  have step: "collectDescendants headers c a =
      a \<union> insert (line c) (line ` set (descendants headers c))"
    if "c \<in> set headers" "parent c = Some node" for c a
    using "1.IH" [OF that pc] .
  have "collectDescendants headers node acc =
      insert (line node) acc \<union>
        (\<Union>c \<in> {c \<in> set headers. parent c = Some node}.
           insert (line c) (line ` set (descendants headers c)))"
    by (subst collectDescendants.simps) (rule fold_children, rule step)
  also have "(\<Union>c \<in> {c \<in> set headers. parent c = Some node}.
           insert (line c) (line ` set (descendants headers c)))
      = line ` set (descendants headers node)"
  proof -
    have "line ` set (descendants headers node) =
        line ` (\<Union>c \<in> {c \<in> set headers. parent c = Some node}.
           insert c (set (descendants headers c)))"
      by (rule arg_cong [OF descendants_children [OF pc]])
    then show ?thesis by (simp add: image_UN)
  qed
  finally show ?case by auto
qed


lemma unfoldLines_eq:
  assumes "parents_closed headers"
  shows "unfoldLines headers focus =
     line ` insert focus (set (ancestors focus) \<union> set (descendants headers focus))"
  unfolding unfoldLines_def collectDescendants_eq [OF assms] collectAncestors_eq chain_ancestors
  by auto

lemma ancestors_subset:
  "parents_closed headers \<Longrightarrow> n \<in> set headers \<Longrightarrow> set (ancestors n) \<subseteq> set headers"
  using ancestors_level by blast

lemma unfoldLines_member:
  assumes f: "focus \<in> set (parseHeaders doc)" and h: "h \<in> set (parseHeaders doc)"
  shows "line h \<in> unfoldLines (parseHeaders doc) focus \<longleftrightarrow>
     h = focus \<or> h \<in> set (ancestors focus) \<or> h \<in> set (descendants (parseHeaders doc) focus)"
proof -
  define hs where "hs = parseHeaders doc"
  have pc: "parents_closed hs" unfolding hs_def by (rule parseHeaders_closed)
  from f h have f': "focus \<in> set hs" and h': "h \<in> set hs" by (simp_all add: hs_def)
  define V where "V = insert focus (set (ancestors focus) \<union> set (descendants hs focus))"
  have eq: "unfoldLines hs focus = line ` V"
    unfolding V_def by (rule unfoldLines_eq [OF pc])
  have sub: "V \<subseteq> set hs"
    using f' ancestors_subset [OF pc f'] by (auto simp: V_def descendants_def)
  have "line h \<in> line ` V \<longleftrightarrow> h \<in> V"
  proof
    assume "line h \<in> line ` V"
    then obtain v where v: "v \<in> V" and lv: "line h = line v" by blast
    from v sub have vs: "v \<in> set hs" by blast
    from h' vs lv have "h = v" unfolding hs_def by (rule parseHeaders_inj_line)
    with v show "h \<in> V" by simp
  next
    assume "h \<in> V"
    then show "line h \<in> line ` V" by simp
  qed
  then show ?thesis unfolding eq hs_def [symmetric] by (simp add: V_def)
qed

text \<open>The focus node of each command is a node of the parsed sequence.\<close>

lemma focus_in_headers:
  "currentHeader headers cursor = Some focus \<Longrightarrow> focus \<in> set headers"
  "currentHeaderIndex headers cursor = Some idx \<Longrightarrow> nextSibling headers idx = Some focus
     \<Longrightarrow> focus \<in> set headers"
  "currentHeaderIndex headers cursor = Some idx \<Longrightarrow> prevSibling headers idx = Some focus
     \<Longrightarrow> focus \<in> set headers"
proof -
  show "focus \<in> set headers" if "currentHeader headers cursor = Some focus"
    using that by (auto simp: currentHeader_def currentHeaderIndex_def locateFrom_Some)
  show "focus \<in> set headers"
    if "currentHeaderIndex headers cursor = Some idx" "nextSibling headers idx = Some focus"
    using that(2) unfolding nextSibling_def nextSiblingFrom_Some by auto
  show "focus \<in> set headers"
    if "currentHeaderIndex headers cursor = Some idx" "prevSibling headers idx = Some focus"
  proof -
    from that(1) have "idx < length headers"
      by (simp add: currentHeaderIndex_def locateFrom_Some)
    with that(2) show ?thesis
      unfolding prevSibling_def prevSiblingFrom_Some by auto
  qed
qed

text \<open>
  C2: for every document and every focus node, the computed unfold set of line indices is
  exactly the focus node's own line, the lines of all of its ancestors reached by
  following parent links to a root, and the lines of all of its descendants (the nodes
  whose parent chain leads back to the focus node); it contains no other heading's line.
  The focus node is any node of the parsed sequence, as those of the three commands are.
\<close>

theorem C2_unfold_set:
  assumes "focus \<in> set (parseHeaders doc)"
  shows "unfoldLines (parseHeaders doc) focus =
       insert (line focus)
         (line ` set (ancestors focus) \<union> line ` set (descendants (parseHeaders doc) focus))
     \<and> (\<forall>h \<in> set (parseHeaders doc).
           line h \<in> unfoldLines (parseHeaders doc) focus \<longleftrightarrow>
             h = focus \<or> h \<in> set (ancestors focus)
             \<or> h \<in> set (descendants (parseHeaders doc) focus))"
proof -
  have "unfoldLines (parseHeaders doc) focus =
       insert (line focus)
         (line ` set (ancestors focus) \<union> line ` set (descendants (parseHeaders doc) focus))"
    unfolding unfoldLines_eq [OF parseHeaders_closed] by auto
  with unfoldLines_member [OF assms] show ?thesis by blast
qed

theorem C2_witness:
  "parseHeaders docS ! 2 \<in> set (parseHeaders docS)
   \<and> line (parseHeaders docS ! 2) = 4
   \<and> unfoldLines (parseHeaders docS) (parseHeaders docS ! 2) = {1, 4, 5}
   \<and> map line (parseHeaders docS) = [1, 2, 4, 5, 6]"
proof -
  have m: "parseHeaders docS ! 2 \<in> set (parseHeaders docS)"
    by (simp add: parse_docS)
  from C2_unfold_set [OF m]
  have "unfoldLines (parseHeaders docS) (parseHeaders docS ! 2) = {1, 4, 5}"
    by (simp add: parse_docS ancestors_Node descendants_def) auto
  with m show ?thesis by (simp add: parse_docS)
qed

section \<open>The heading left by a navigation\<close>

lemma currentHeaderIndex_Some:
  "currentHeaderIndex headers cursor = Some idx \<Longrightarrow> idx < length headers"
  by (simp add: currentHeaderIndex_def locateFrom_Some)

lemma createEffects_fold:
  "h \<in> set headers \<Longrightarrow> fr (line h) = Some r \<Longrightarrow> line h \<notin> unfold
     \<Longrightarrow> foldEffect r \<in> set (createEffects fr unfold headers)"
  by (induction headers) (auto split: option.splits)

lemma sibling_not_unfolded:
  assumes idx: "idx < length (parseHeaders doc)" and j: "j < length (parseHeaders doc)"
    and ne: "j \<noteq> idx"
    and sib: "exact_sibling (parseHeaders doc ! idx) (parseHeaders doc ! j)"
  shows "line (parseHeaders doc ! idx) \<notin> unfoldLines (parseHeaders doc) (parseHeaders doc ! j)"
proof -
  define hs where "hs = parseHeaders doc"
  define cur where "cur = hs ! idx"
  define s where "s = hs ! j"
  have pc: "parents_closed hs" unfolding hs_def by (rule parseHeaders_closed)
  from idx j have cm: "cur \<in> set hs" and sm: "s \<in> set hs"
    by (simp_all add: hs_def cur_def s_def)
  have "distinct hs"
    using parseHeaders_distinct [of doc] unfolding hs_def by (simp add: distinct_map)
  with idx j ne have "cur \<noteq> s"
    by (simp add: cur_def s_def hs_def nth_eq_iff_index_eq)
  moreover from sib have lv: "level s = level cur"
    by (simp add: exact_sibling_def cur_def s_def hs_def)
  have "cur \<notin> set (ancestors s)"
    using ancestors_level [OF pc sm, of cur] lv by auto
  moreover have "cur \<notin> set (descendants hs s)"
    using ancestors_level [OF pc cm, of s] lv by (auto simp: descendants_def)
  ultimately have "line cur \<notin> unfoldLines hs s"
    using unfoldLines_member [of s doc cur] sm cm by (simp add: hs_def)
  then show ?thesis by (simp add: cur_def s_def hs_def)
qed

text \<open>
  C10: after a successful Focus on Next Header or Focus on Previous Header, the line of
  the heading that was current is not in the computed unfold set, so that heading, if it
  has a foldable range, is folded.
\<close>

theorem C10_previous_current_folded:
  assumes cur: "currentHeaderIndex (parseHeaders (getValue ed)) (cursorLine ed) = Some idx"
    and sib: "nextSibling (parseHeaders (getValue ed)) idx = Some sib
        \<and> acts = focusOnNextSibling ed
      \<or> prevSibling (parseHeaders (getValue ed)) idx = Some sib
        \<and> acts = focusOnPreviousSibling ed"
  shows "line (parseHeaders (getValue ed) ! idx) \<notin> unfoldLines (parseHeaders (getValue ed)) sib
     \<and> (\<exists>effects. acts = [dispatch effects, scrollTo (line sib), setCursor (line sib) 0]
          \<and> (\<forall>r. foldable ed (line (parseHeaders (getValue ed) ! idx)) = Some r
                \<longrightarrow> foldEffect r \<in> set effects))"
proof -
  define hs where "hs = parseHeaders (getValue ed)"
  from cur have idx: "idx < length hs"
    unfolding hs_def by (rule currentHeaderIndex_Some)
  from sib have "nextSibling hs idx = Some sib \<or> prevSibling hs idx = Some sib"
    by (auto simp: hs_def)
  then have "\<exists>j. j < length hs \<and> j \<noteq> idx \<and> hs ! j = sib \<and> exact_sibling (hs ! idx) sib"
  proof
    assume "nextSibling hs idx = Some sib"
    then obtain j where "idx + 1 \<le> j" "j < length hs" "hs ! j = sib" "exact_sibling (hs ! idx) sib"
      unfolding nextSibling_def nextSiblingFrom_Some by blast
    then show ?thesis by (intro exI [of _ j]) simp
  next
    assume "prevSibling hs idx = Some sib"
    then obtain j where "j < idx" "hs ! j = sib" "exact_sibling (hs ! idx) sib"
      unfolding prevSibling_def prevSiblingFrom_Some by blast
    with idx show ?thesis by (intro exI [of _ j]) simp
  qed
  then obtain j where j: "j < length hs" "j \<noteq> idx" "hs ! j = sib" "exact_sibling (hs ! idx) sib"
    by blast
  from sibling_not_unfolded [of idx "getValue ed" j] idx j
  have notin: "line (hs ! idx) \<notin> unfoldLines hs sib"
    by (simp add: hs_def)
  define effects where "effects = createEffects (foldable ed) (unfoldLines hs sib) hs"
  from sib cur have acts: "acts = [dispatch effects, scrollTo (line sib), setCursor (line sib) 0]"
    by (auto simp: focusOnNextSibling_def focusOnPreviousSibling_def effects_def hs_def Let_def)
  have "foldEffect r \<in> set effects" if "foldable ed (line (hs ! idx)) = Some r" for r
    unfolding effects_def using idx that notin by (intro createEffects_fold) simp_all
  with notin acts show ?thesis unfolding hs_def by blast
qed


lemma currentHeaderIndex_edS:
  "currentHeaderIndex (parseHeaders (getValue edS)) (cursorLine edS) = Some 2"
  by code_simp

lemma nextSibling_edS:
  "nextSibling (parseHeaders (getValue edS)) 2 = Some (parseHeaders docS ! 4)"
  by code_simp

lemma prevSibling_edS:
  "prevSibling (parseHeaders (getValue edS)) 2 = Some (parseHeaders docS ! 1)"
  by code_simp

theorem C10_witness:
  "currentHeaderIndex (parseHeaders (getValue edS)) (cursorLine edS) = Some 2
   \<and> nextSibling (parseHeaders (getValue edS)) 2 = Some (parseHeaders docS ! 4)
   \<and> prevSibling (parseHeaders (getValue edS)) 2 = Some (parseHeaders docS ! 1)
   \<and> line (parseHeaders docS ! 2) \<notin> unfoldLines (parseHeaders docS) (parseHeaders docS ! 4)
   \<and> line (parseHeaders docS ! 2) \<notin> unfoldLines (parseHeaders docS) (parseHeaders docS ! 1)
   \<and> foldable edS (line (parseHeaders docS ! 2)) = Some (4, 5)
   \<and> (\<exists>effects. focusOnNextSibling edS = [dispatch effects, scrollTo 6, setCursor 6 0]
          \<and> foldEffect (4, 5) \<in> set effects)
   \<and> (\<exists>effects. focusOnPreviousSibling edS = [dispatch effects, scrollTo 2, setCursor 2 0]
          \<and> foldEffect (4, 5) \<in> set effects)"
proof -
  have gv: "getValue edS = docS" by (simp add: edS_def)
  have fr: "foldable edS (line (parseHeaders docS ! 2)) = Some (4, 5)"
    by (simp add: edS_def parse_docS)
  have l4: "line (parseHeaders docS ! 4) = 6" and l1: "line (parseHeaders docS ! 1) = 2"
    by (simp_all add: parse_docS)
  from C10_previous_current_folded [OF currentHeaderIndex_edS, of "parseHeaders docS ! 4"
      "focusOnNextSibling edS"] nextSibling_edS
  have n: "line (parseHeaders docS ! 2) \<notin> unfoldLines (parseHeaders docS) (parseHeaders docS ! 4)
     \<and> (\<exists>effects. focusOnNextSibling edS = [dispatch effects, scrollTo 6, setCursor 6 0]
          \<and> foldEffect (4, 5) \<in> set effects)"
    unfolding gv l4 using fr by blast
  from C10_previous_current_folded [OF currentHeaderIndex_edS, of "parseHeaders docS ! 1"
      "focusOnPreviousSibling edS"] prevSibling_edS
  have p: "line (parseHeaders docS ! 2) \<notin> unfoldLines (parseHeaders docS) (parseHeaders docS ! 1)
     \<and> (\<exists>effects. focusOnPreviousSibling edS = [dispatch effects, scrollTo 2, setCursor 2 0]
          \<and> foldEffect (4, 5) \<in> set effects)"
    unfolding gv l1 using fr by blast
  from n p fr currentHeaderIndex_edS nextSibling_edS prevSibling_edS show ?thesis
    by blast
qed

section \<open>Early returns, and a second invocation\<close>

lemma currentHeaderIndex_None:
  "currentHeaderIndex headers cursor = None \<longleftrightarrow> (\<forall>m \<in> set headers. cursor < line m)"
  unfolding currentHeaderIndex_def
  by (simp add: locateFrom_None) (metis in_set_conv_nth nth_mem)

lemma currentHeader_None:
  "currentHeader headers cursor = None \<longleftrightarrow> currentHeaderIndex headers cursor = None"
  by (simp add: currentHeader_def)

text \<open>
  C8: if no heading is located at or before the cursor, or if no sibling exists in the
  requested direction, the command returns without emitting any fold or unfold
  instruction, without scrolling and without moving the cursor.
\<close>

theorem C8_early_return_no_effect:
  "((\<forall>m \<in> set (parseHeaders (getValue ed)). cursorLine ed < line m) \<longrightarrow>
       focusOnCurrentHeader ed = [] \<and> focusOnNextSibling ed = []
       \<and> focusOnPreviousSibling ed = [])
   \<and> (\<forall>idx. currentHeaderIndex (parseHeaders (getValue ed)) (cursorLine ed) = Some idx
          \<and> nextSibling (parseHeaders (getValue ed)) idx = None
        \<longrightarrow> focusOnNextSibling ed = [] \<and> runActions (focusOnNextSibling ed) ed = ed)
   \<and> (\<forall>idx. currentHeaderIndex (parseHeaders (getValue ed)) (cursorLine ed) = Some idx
          \<and> prevSibling (parseHeaders (getValue ed)) idx = None
        \<longrightarrow> focusOnPreviousSibling ed = [] \<and> runActions (focusOnPreviousSibling ed) ed = ed)"
proof -
  have none: "focusOnCurrentHeader ed = [] \<and> focusOnNextSibling ed = []
       \<and> focusOnPreviousSibling ed = []"
    if "\<forall>m \<in> set (parseHeaders (getValue ed)). cursorLine ed < line m"
  proof -
    from that have "currentHeaderIndex (parseHeaders (getValue ed)) (cursorLine ed) = None"
      by (simp add: currentHeaderIndex_None)
    then show ?thesis
      by (simp add: focusOnCurrentHeader_def focusOnNextSibling_def focusOnPreviousSibling_def
          currentHeader_def Let_def)
  qed
  have nxt: "focusOnNextSibling ed = [] \<and> runActions (focusOnNextSibling ed) ed = ed"
    if "currentHeaderIndex (parseHeaders (getValue ed)) (cursorLine ed) = Some idx"
      and "nextSibling (parseHeaders (getValue ed)) idx = None" for idx
    using that by (simp add: focusOnNextSibling_def Let_def runActions_def)
  have prv: "focusOnPreviousSibling ed = [] \<and> runActions (focusOnPreviousSibling ed) ed = ed"
    if "currentHeaderIndex (parseHeaders (getValue ed)) (cursorLine ed) = Some idx"
      and "prevSibling (parseHeaders (getValue ed)) idx = None" for idx
    using that by (simp add: focusOnPreviousSibling_def Let_def runActions_def)
  from none nxt prv show ?thesis by blast
qed

lemma currentHeaderIndex_docS_6: "currentHeaderIndex (parseHeaders docS) 6 = Some 4"
  by code_simp

lemma nextSibling_docS_4: "nextSibling (parseHeaders docS) 4 = None"
  by code_simp

lemma currentHeaderIndex_docS_2: "currentHeaderIndex (parseHeaders docS) 2 = Some 1"
  by code_simp

lemma prevSibling_docS_1: "prevSibling (parseHeaders docS) 1 = None"
  by code_simp

theorem C8_witness:
  "list_all (\<lambda>m. 0 < line m) (parseHeaders docS)
   \<and> focusOnCurrentHeader (edS\<lparr>cursorLine := 0\<rparr>) = []
   \<and> focusOnNextSibling (edS\<lparr>cursorLine := 0\<rparr>) = []
   \<and> focusOnPreviousSibling (edS\<lparr>cursorLine := 0\<rparr>) = []
   \<and> currentHeaderIndex (parseHeaders docS) 6 = Some 4
   \<and> nextSibling (parseHeaders docS) 4 = None
   \<and> focusOnNextSibling (edS\<lparr>cursorLine := 6\<rparr>) = []
   \<and> currentHeaderIndex (parseHeaders docS) 2 = Some 1
   \<and> prevSibling (parseHeaders docS) 1 = None
   \<and> focusOnPreviousSibling (edS\<lparr>cursorLine := 2\<rparr>) = []"
proof -
  have gv: "getValue (edS\<lparr>cursorLine := c\<rparr>) = docS"
    and cl: "cursorLine (edS\<lparr>cursorLine := c\<rparr>) = c" for c
    by (simp_all add: edS_def)
  have pre: "\<forall>m \<in> set (parseHeaders docS). 0 < line m"
    by (simp add: parse_docS)
  from C8_early_return_no_effect [of "edS\<lparr>cursorLine := 0\<rparr>"] pre
  have a: "focusOnCurrentHeader (edS\<lparr>cursorLine := 0\<rparr>) = []
      \<and> focusOnNextSibling (edS\<lparr>cursorLine := 0\<rparr>) = []
      \<and> focusOnPreviousSibling (edS\<lparr>cursorLine := 0\<rparr>) = []"
    unfolding gv cl by blast
  from C8_early_return_no_effect [of "edS\<lparr>cursorLine := 6\<rparr>"]
    currentHeaderIndex_docS_6 nextSibling_docS_4
  have b: "focusOnNextSibling (edS\<lparr>cursorLine := 6\<rparr>) = []"
    unfolding gv cl by blast
  from C8_early_return_no_effect [of "edS\<lparr>cursorLine := 2\<rparr>"]
    currentHeaderIndex_docS_2 prevSibling_docS_1
  have c: "focusOnPreviousSibling (edS\<lparr>cursorLine := 2\<rparr>) = []"
    unfolding gv cl by blast
  from pre have "list_all (\<lambda>m. 0 < line m) (parseHeaders docS)"
    by (simp add: list_all_iff)
  with a b c currentHeaderIndex_docS_6 nextSibling_docS_4 currentHeaderIndex_docS_2
    prevSibling_docS_1 show ?thesis by blast
qed

lemma runActions_focusOnCurrentHeader: "runActions (focusOnCurrentHeader ed) ed = ed"
  by (simp add: focusOnCurrentHeader_def runActions_def Let_def split: option.splits)

text \<open>
  C9: Focus on Current Header is idempotent in its decision: it changes neither the
  document text nor the cursor line, so a second invocation computes the same unfold set
  (and dispatches the same effects) as the first.
\<close>

theorem C9_focus_current_idempotent:
  "getValue (runActions (focusOnCurrentHeader ed) ed) = getValue ed
   \<and> cursorLine (runActions (focusOnCurrentHeader ed) ed) = cursorLine ed
   \<and> focusUnfoldLines (runActions (focusOnCurrentHeader ed) ed) = focusUnfoldLines ed
   \<and> focusOnCurrentHeader (runActions (focusOnCurrentHeader ed) ed) = focusOnCurrentHeader ed"
  by (simp add: runActions_focusOnCurrentHeader)

lemma focusUnfoldLines_edS: "focusUnfoldLines edS = Some {1, 4, 5}"
  by code_simp

theorem C9_witness:
  "focusUnfoldLines edS = Some {1, 4, 5}
   \<and> focusUnfoldLines (runActions (focusOnCurrentHeader edS) edS) = Some {1, 4, 5}"
  using C9_focus_current_idempotent [of edS] focusUnfoldLines_edS by simp

section \<open>A parent from an earlier section\<close>

lemma collectDescendants_doc4:
  "collectDescendants (parseHeaders doc4) (parseHeaders doc4 ! 1) {} = {1, 3}"
  by code_simp

lemma unfoldLines_doc4:
  "unfoldLines (parseHeaders doc4) (parseHeaders doc4 ! 3) = {0, 1, 3}"
  by code_simp

text \<open>
  C1 (the parent is the closest preceding heading of strictly smaller level) does not
  hold of the parser.  In \<open>doc4\<close> the heading of line 3, at level 3, gets as parent the
  heading of line 1, the entry left in \<open>lastByLevel\<close> at level 2, although the heading
  of line 2, at level 1, lies between them: it is the closest preceding heading of
  smaller level.  Focusing on the heading of line 3 then unfolds the lines 0, 1 and 3
  and folds the heading of line 2, in whose section line 3 lies.
\<close>

theorem C1_stale_parent_doc4:
  "parseHeaders doc4 ! 3 = HeaderNode 3 3 (Some (parseHeaders doc4 ! 1))
   \<and> parseHeaders doc4 ! 1 = HeaderNode 1 2 (Some (HeaderNode 0 1 None))
   \<and> parseHeaders doc4 ! 2 = HeaderNode 2 1 None
   \<and> parent (parseHeaders doc4 ! 3) \<noteq> Some (parseHeaders doc4 ! 2)
   \<and> line (parseHeaders doc4 ! 1) < line (parseHeaders doc4 ! 2)
   \<and> line (parseHeaders doc4 ! 2) < line (parseHeaders doc4 ! 3)
   \<and> level (parseHeaders doc4 ! 2) < level (parseHeaders doc4 ! 3)
   \<and> unfoldLines (parseHeaders doc4) (parseHeaders doc4 ! 3) = {0, 1, 3}"
  using unfoldLines_doc4 by (simp add: parse_doc4)

text \<open>
  C6 (the descendants of a node are a contiguous run right after it) does not hold of the
  parsed tree either.  In \<open>doc4\<close> the heading of line 3 is a descendant of the heading of
  line 1, and \<^verbatim>\<open>collectDescendants\<close> collects it, although the heading of line 2, of a
  lower level than that of line 1, separates them.
\<close>

theorem C6_descendant_across_boundary_doc4:
  "descendants (parseHeaders doc4) (parseHeaders doc4 ! 1) = [parseHeaders doc4 ! 3]
   \<and> collectDescendants (parseHeaders doc4) (parseHeaders doc4 ! 1) {} = {1, 3}
   \<and> map line (parseHeaders doc4) = [0, 1, 2, 3]
   \<and> level (parseHeaders doc4 ! 2) \<le> level (parseHeaders doc4 ! 1)
   \<and> parseHeaders doc4 ! 2 \<notin> set (descendants (parseHeaders doc4) (parseHeaders doc4 ! 1))"
  using collectDescendants_doc4
  by (simp add: parse_doc4 descendants_def ancestors_Node)

end
